theory Spec2Isabelle
  imports Main "HOL-Library.Word"
begin

section \<open>Package stringqueue: a circular buffer of strings\<close>

text \<open>
  Go's \<open>int\<close> is modelled as a 64-bit two's complement word (the width on 64-bit
  platforms): \<open>+\<close>, \<open>-\<close> and \<open>*\<close> wrap around, and the comparisons of the source are
  the signed ones, \<open><s\<close> and \<open>\<le>s\<close>. A slice is a list; its length is not bounded by
  the memory of a machine. A run-time panic (\<open>make\<close> with a negative length, an index
  out of range) is the value \<open>None\<close>; an \<open>error\<close> returned by the source is a value
  of the datatype \<open>error\<close>.
\<close>

type_synonym go_int = "64 word"

datatype error = CapacityExceeded | QueueEmpty

record IntQueue =
  data :: "string list"
  head :: go_int
  tail :: go_int
  capacity :: go_int
  lengthq :: go_int

text \<open>\<open>make([]string, n, n)\<close>: \<open>n\<close> zero values (empty strings); panics when \<open>n\<close> is negative.\<close>

definition make_slice :: "go_int \<Rightarrow> string list option" where
  "make_slice n = (if n <s 0 then None else Some (replicate (nat (sint n)) []))"

text \<open>\<open>xs[i]\<close> as a read and \<open>xs[i] = v\<close> as a write: both panic out of range.\<close>

definition index :: "string list \<Rightarrow> go_int \<Rightarrow> string option" where
  "index xs i = (if 0 \<le>s i \<and> nat (sint i) < length xs then Some (xs ! nat (sint i)) else None)"

definition store :: "string list \<Rightarrow> go_int \<Rightarrow> string \<Rightarrow> string list option" where
  "store xs i v = (if 0 \<le>s i \<and> nat (sint i) < length xs then Some (xs[nat (sint i) := v]) else None)"

definition DefaultCapacity :: go_int where
  "DefaultCapacity = 32"

definition NewWithCapacity :: "go_int \<Rightarrow> IntQueue option" where
  "NewWithCapacity c =
     (case make_slice c of
        None \<Rightarrow> None
      | Some d \<Rightarrow> Some \<lparr>data = d, head = - 1, tail = - 1, capacity = c, lengthq = 0\<rparr>)"

definition New :: "IntQueue option" where
  "New = NewWithCapacity DefaultCapacity"

text \<open>
  \<open>Dequeue\<close> returns the pair of the source (the string and the error, \<open>None\<close> for
  \<open>nil\<close>) and the queue after the call.
\<close>

definition Dequeue :: "IntQueue \<Rightarrow> ((string \<times> error option) \<times> IntQueue) option" where
  "Dequeue q =
     (if lengthq q - 1 <s 0 then Some (([], Some QueueEmpty), q)
      else
        let q1 = q\<lparr>lengthq := lengthq q - 1\<rparr>;
            q2 = q1\<lparr>tail := tail q1 + 1\<rparr>;
            q3 = (if tail q2 = capacity q2 then q2\<lparr>tail := 0\<rparr> else q2)
        in case index (data q3) (tail q3) of
             None \<Rightarrow> None
           | Some s \<Rightarrow> Some ((s, None), q3))"

text \<open>
  The loop of \<open>resize\<close>, \<open>for err = nil; err == nil; i, err = q.Dequeue()\<close>, entered
  with \<open>err == nil\<close>: the body appends the current \<open>i\<close>, then the post statement
  dequeues, and the loop goes on while that returned no error.
\<close>

function resize_loop :: "IntQueue \<Rightarrow> string \<Rightarrow> string list \<Rightarrow> (IntQueue \<times> string list) option" where
  "resize_loop q i new_data =
     (case Dequeue q of
        None \<Rightarrow> None
      | Some ((i', err), q') \<Rightarrow>
          (if err = None then resize_loop q' i' (new_data @ [i])
           else Some (q', new_data @ [i])))"
  by pat_completeness auto
termination
proof (relation "measure (\<lambda>(q, i, new_data). unat (lengthq q))")
  show "wf (measure (\<lambda>(q, i, new_data). unat (lengthq q)))" by simp
next
  fix q :: IntQueue and i :: string and new_data :: "string list"
    and x2 x1 q' i' err
  assume d: "Dequeue q = Some x2" and x2: "(x1, q') = x2" and x1: "(i', err) = x1"
    and e: "err = None"
  from d x2 x1 e have "lengthq q' = lengthq q - 1" and "lengthq q \<noteq> 0"
    by (auto simp: Dequeue_def Let_def split: if_splits option.splits)
  then have "unat (lengthq q') < unat (lengthq q)"
    by (simp add: unat_minus_one unat_gt_0)
  then show "((q', i', new_data @ [i]), (q, i, new_data))
      \<in> measure (\<lambda>(q, i, new_data). unat (lengthq q))"
    by simp
qed

definition resize :: "go_int \<Rightarrow> IntQueue \<Rightarrow> IntQueue option" where
  "resize new_capacity q =
     (case make_slice new_capacity of
        None \<Rightarrow> None
      | Some new_data \<Rightarrow>
          (case resize_loop q [] new_data of
             None \<Rightarrow> None
           | Some (q', new_data') \<Rightarrow>
               Some (q'\<lparr>head := lengthq q' - 1, tail := 0,
                        capacity := new_capacity, data := new_data'\<rparr>)))"

text \<open>Lines 68 to 74 of \<open>Enqueue\<close>: what follows the growth of the buffer.\<close>

definition Enqueue_store :: "string \<Rightarrow> IntQueue \<Rightarrow> (error option \<times> IntQueue) option" where
  "Enqueue_store i q =
     (let q1 = q\<lparr>lengthq := lengthq q + 1\<rparr>;
          q2 = q1\<lparr>head := head q1 + 1\<rparr>;
          q3 = (if head q2 = capacity q2 then q2\<lparr>head := 0\<rparr> else q2)
      in case store (data q3) (head q3) i of
           None \<Rightarrow> None
         | Some d \<Rightarrow> Some (None, q3\<lparr>data := d\<rparr>))"

definition Enqueue :: "string \<Rightarrow> IntQueue \<Rightarrow> (error option \<times> IntQueue) option" where
  "Enqueue i q =
     (if capacity q <s lengthq q + 1 then
        let new_capacity = capacity q * 2
        in if new_capacity <s 0 then Some (Some CapacityExceeded, q)
           else (case resize new_capacity q of
                   None \<Rightarrow> None
                 | Some q' \<Rightarrow> Enqueue_store i q')
      else Enqueue_store i q)"

subsection \<open>Sequences of calls\<close>

text \<open>
  A client of the package can only construct a queue and call \<open>Enqueue\<close> and
  \<open>Dequeue\<close> on it. \<open>calls\<close> performs a list of calls in order and collects what each
  returned; it is \<open>None\<close> as soon as one call panics.
\<close>

datatype call = Enq string | Deq

datatype reply = Enqueued "error option" | Dequeued string "error option"

fun calls :: "call list \<Rightarrow> IntQueue \<Rightarrow> (reply list \<times> IntQueue) option" where
  "calls [] q = Some ([], q)"
| "calls (Enq v # cs) q =
     (case Enqueue v q of
        None \<Rightarrow> None
      | Some (e, q') \<Rightarrow>
          (case calls cs q' of
             None \<Rightarrow> None
           | Some (rs, q'') \<Rightarrow> Some (Enqueued e # rs, q'')))"
| "calls (Deq # cs) q =
     (case Dequeue q of
        None \<Rightarrow> None
      | Some ((s, e), q') \<Rightarrow>
          (case calls cs q' of
             None \<Rightarrow> None
           | Some (rs, q'') \<Rightarrow> Some (Dequeued s e # rs, q'')))"

subsection \<open>The representation of a queue\<close>

text \<open>
  \<open>in_bounds\<close> collects the bounds on the fields that make every index of the next
  call fall inside the backing slice. The bound on \<open>lengthq\<close> is not needed when the
  capacity is the largest \<open>int\<close>: such a queue never grows.
\<close>

definition in_bounds :: "IntQueue \<Rightarrow> bool" where
  "in_bounds q \<longleftrightarrow>
     1 \<le>s capacity q \<and>
     - 1 \<le>s head q \<and> head q <s capacity q \<and>
     - 1 \<le>s tail q \<and> tail q <s capacity q \<and>
     nat (sint (capacity q)) \<le> length (data q) \<and>
     (sint (capacity q) = 2 ^ 63 - 1 \<or> (0 \<le>s lengthq q \<and> lengthq q \<le>s capacity q))"

text \<open>
  The slots that the next \<open>n\<close> calls of \<open>Dequeue\<close> read: the indices after \<open>t\<close>,
  walking forward and wrapping to 0 at the capacity \<open>c\<close>. \<open>live\<close> is the content of
  the \<open>lengthq\<close> slots after \<open>tail\<close>, and \<open>walk\<close> the index reached after \<open>n\<close> steps.
\<close>

fun slots :: "string list \<Rightarrow> go_int \<Rightarrow> go_int \<Rightarrow> nat \<Rightarrow> string list" where
  "slots d c t 0 = []"
| "slots d c t (Suc n) =
     (let t' = (if t + 1 = c then 0 else t + 1) in d ! nat (sint t') # slots d c t' n)"

definition live :: "IntQueue \<Rightarrow> string list" where
  "live q = slots (data q) (capacity q) (tail q) (nat (sint (lengthq q)))"

fun walk :: "go_int \<Rightarrow> go_int \<Rightarrow> nat \<Rightarrow> go_int" where
  "walk c t 0 = t"
| "walk c t (Suc n) = walk c (if t + 1 = c then 0 else t + 1) n"

text \<open>
  The representation invariant of the data model, for a queue \<open>q\<close> whose elements
  enqueued and not yet dequeued are \<open>xs\<close>, oldest first: \<open>lengthq\<close> counts them and
  lies between 0 and the capacity, and they occupy the slots from the one after
  \<open>tail\<close> to \<open>head\<close>.
\<close>

definition rep_inv :: "IntQueue \<Rightarrow> string list \<Rightarrow> bool" where
  "rep_inv q xs \<longleftrightarrow>
     sint (lengthq q) = int (length xs) \<and>
     0 \<le>s lengthq q \<and> lengthq q \<le>s capacity q \<and>
     live q = xs \<and>
     walk (capacity q) (tail q) (length xs) = head q"

subsection \<open>The values of the tests\<close>

text \<open>
  The 33 values that \<open>TestFill\<close> enqueues: \<open>string(i)\<close> for \<open>i\<close> from 1 to 32, the
  one-character strings with these code points, and then \<open>"33"\<close>.
\<close>

definition fill_values :: "string list" where
  "fill_values = map (\<lambda>i. [char_of i]) [1..<33] @ [''33'']"

section \<open>Package maxheap: a binary max-heap of integers\<close>

text \<open>
  Only the tests of this package are among the sources (\<open>maxheap_test.go\<close>); the
  heap itself is modelled from section 4.2 of the specification. The values are
  only compared and moved, so they are modelled as \<open>int\<close>; indices and the size
  are natural numbers.
\<close>

text \<open>Modelled from the spec: the error \<open>HeapEmpty\<close> of \<open>Peek\<close> and \<open>Delete\<close>.\<close>

datatype heap_error = HeapEmpty

text \<open>
  Modelled from the spec: the type \<open>MaxHeap\<close>, missing from the sources. \<open>heap_data\<close>
  is the backing sequence (the fields \<open>data\<close> and \<open>size\<close> that the tests read), with
  index 0 an unused placeholder and the root at index 1.
\<close>

record MaxHeap =
  heap_data :: "int list"
  heap_size :: nat

text \<open>
  Modelled from the spec: the constructor \<open>New\<close> of the package, missing from the
  sources: an empty heap, the backing sequence holding only the placeholder.
\<close>

definition MaxHeap_New :: MaxHeap where
  "MaxHeap_New = \<lparr>heap_data = [0], heap_size = 0\<rparr>"

text \<open>
  Modelled from the spec: \<open>Peek\<close>, missing from the sources: fails with
  \<open>HeapEmpty\<close> when the size is 0, otherwise returns the root.
\<close>

definition Peek :: "MaxHeap \<Rightarrow> heap_error + int" where
  "Peek h = (if heap_size h = 0 then Inl HeapEmpty else Inr (heap_data h ! 1))"

text \<open>Modelled from the spec: the exchange of two positions that both sift loops use.\<close>

definition swap :: "int list \<Rightarrow> nat \<Rightarrow> nat \<Rightarrow> int list" where
  "swap d i j = d[i := d ! j, j := d ! i]"

text \<open>
  Modelled from the spec: the sift-up loop of \<open>Insert\<close>, missing from the sources:
  while the node is not the root and exceeds its parent at \<open>i div 2\<close>, swap them.
\<close>

function sift_up :: "int list \<Rightarrow> nat \<Rightarrow> int list" where
  "sift_up d i =
     (if 1 < i \<and> d ! (i div 2) < d ! i then sift_up (swap d i (i div 2)) (i div 2) else d)"
  by pat_completeness auto
termination
  by (relation "measure (\<lambda>(d, i). i)") auto

text \<open>
  Modelled from the spec: \<open>Insert\<close>, missing from the sources: append the value at
  index \<open>size + 1\<close>, increment the size, sift up from there.
\<close>

definition Insert :: "int \<Rightarrow> MaxHeap \<Rightarrow> MaxHeap" where
  "Insert v h =
     (let n = heap_size h + 1
      in \<lparr>heap_data = sift_up (heap_data h @ [v]) n, heap_size = n\<rparr>)"

text \<open>
  Modelled from the spec: the sift-down loop of \<open>Delete\<close>, missing from the sources,
  on a heap of \<open>n\<close> elements: among the children \<open>2 * i\<close> and \<open>2 * i + 1\<close> that lie
  within \<open>[1, n]\<close> take the larger (the left one when they are equal: the spec
  leaves the choice open), swap with it when it exceeds the node, and stop
  otherwise.
\<close>

function sift_down :: "int list \<Rightarrow> nat \<Rightarrow> nat \<Rightarrow> int list" where
  "sift_down d n i =
     (if 0 < i \<and> 2 * i \<le> n then
        let c = (if 2 * i + 1 \<le> n \<and> d ! (2 * i) < d ! (2 * i + 1) then 2 * i + 1 else 2 * i)
        in if d ! i < d ! c then sift_down (swap d i c) n c else d
      else d)"
  by pat_completeness auto
termination
  by (relation "measure (\<lambda>(d, n, i). n - i)") (auto split: if_splits)

text \<open>
  Modelled from the spec: \<open>Delete\<close>, missing from the sources: fails with
  \<open>HeapEmpty\<close> when the size is 0; otherwise returns the root, after moving the last
  element into the root slot, decrementing the size, truncating the backing
  sequence to the placeholder and \<open>size\<close> elements, and sifting down from the root.
\<close>

definition Delete :: "MaxHeap \<Rightarrow> (heap_error + int) \<times> MaxHeap" where
  "Delete h =
     (if heap_size h = 0 then (Inl HeapEmpty, h)
      else
        let top = heap_data h ! 1;
            d = (heap_data h)[1 := heap_data h ! heap_size h];
            n = heap_size h - 1
        in (Inr top, \<lparr>heap_data = sift_down (take (n + 1) d) n 1, heap_size = n\<rparr>))"

text \<open>\<open>deletes n h\<close> calls \<open>Delete\<close> \<open>n\<close> times in a row and collects what the calls returned.\<close>

fun deletes :: "nat \<Rightarrow> MaxHeap \<Rightarrow> (heap_error + int) list \<times> MaxHeap" where
  "deletes 0 h = ([], h)"
| "deletes (Suc n) h =
     (case Delete h of (r, h') \<Rightarrow> (case deletes n h' of (rs, h'') \<Rightarrow> (r # rs, h'')))"

section \<open>Properties of the queue\<close>

subsection \<open>Signed arithmetic without overflow\<close>

lemma sint_plus1: "sint (x::go_int) < 2^63 - 1 \<Longrightarrow> sint (x + 1) = sint x + 1"
  using sint_ge[of x]
  by (simp add: sint_word_ariths word_size signed_take_bit_int_eq_self)

lemma sint_minus1: "- (2^63) < sint (x::go_int) \<Longrightarrow> sint (x - 1) = sint x - 1"
  using sint_lt[of x]
  by (simp add: sint_word_ariths word_size signed_take_bit_int_eq_self)

lemma sint_double: "0 \<le> sint (c::go_int) \<Longrightarrow> 2 * sint c < 2^63 \<Longrightarrow> sint (c * 2) = 2 * sint c"
  by (simp add: sint_word_ariths word_size signed_take_bit_int_eq_self)

lemma double_neg_iff: "0 \<le> sint (c::go_int) \<Longrightarrow> (c * 2 <s 0) = (2^63 \<le> 2 * sint c)"
proof (cases "2 * sint c < 2^63")
  case True
  assume "0 \<le> sint c"
  with True show ?thesis by (simp add: word_sless_alt sint_double)
next
  case False
  then have "signed_take_bit 63 (2 * sint c) \<le> 2 * sint c - 2 ^ Suc 63"
    by (intro signed_take_bit_int_less_eq) simp
  then have "signed_take_bit 63 (2 * sint c) \<le> 2 * sint c - 18446744073709551616"
    by simp
  moreover have "sint c < 9223372036854775808" using sint_lt[of c] by simp
  ultimately have "signed_take_bit 63 (2 * sint c) < 0" by linarith
  then have "sint (c * 2) < 0" by (simp add: sint_word_ariths word_size mult.commute)
  with False show ?thesis by (simp add: word_sless_alt)
qed

lemma sint_eq_iff: "(a = b) = (sint a = sint (b::go_int))"
  by (rule word_eq_iff_signed)

subsection \<open>The bounds are kept by every call\<close>

lemma advance_in_range:
  fixes h c :: go_int
  assumes "1 \<le> sint c" "- 1 \<le> sint h" "sint h < sint c"
  defines "h' \<equiv> (if h + 1 = c then 0 else h + 1)"
  shows "0 \<le> sint h'" and "sint h' < sint c"
proof -
  have "sint c < 2 ^ 63" using sint_lt[of c] by simp
  with assms have s: "sint (h + 1) = sint h + 1" by (intro sint_plus1) simp
  show "0 \<le> sint h'" using assms(2) s by (simp add: h'_def)
  show "sint h' < sint c" using assms(1,3) s by (auto simp: h'_def sint_eq_iff)
qed

lemma Dequeue_empty:
  "lengthq q = 0 \<Longrightarrow> Dequeue q = Some (([], Some QueueEmpty), q)"
  by (simp add: Dequeue_def word_sless_alt)

lemma Dequeue_nonempty:
  assumes b: "in_bounds q" and l: "0 <s lengthq q"
  shows "\<exists>s q'. Dequeue q = Some ((s, None), q') \<and> in_bounds q' \<and>
           lengthq q' = lengthq q - 1 \<and> 0 \<le>s lengthq q' \<and>
           sint (lengthq q') = sint (lengthq q) - 1 \<and>
           capacity q' = capacity q \<and> data q' = data q \<and> head q' = head q \<and>
           tail q' = (if tail q + 1 = capacity q then 0 else tail q + 1)"
proof -
  let ?t = "if tail q + 1 = capacity q then 0 else tail q + 1"
  let ?q' = "q\<lparr>lengthq := lengthq q - 1, tail := ?t\<rparr>"
  from l have l0: "0 < sint (lengthq q)" by (simp add: word_sless_alt)
  then have sl: "sint (lengthq q - 1) = sint (lengthq q) - 1"
    by (intro sint_minus1) simp
  from b have c: "1 \<le> sint (capacity q)" "- 1 \<le> sint (tail q)" "sint (tail q) < sint (capacity q)"
    by (simp_all add: in_bounds_def word_sle_eq word_sless_alt)
  note t = advance_in_range[OF c]
  from b have "nat (sint (capacity q)) \<le> length (data q)" by (simp add: in_bounds_def)
  with t have i: "index (data q) ?t = Some (data q ! nat (sint ?t))"
    unfolding index_def word_sle_eq by auto
  have ne: "\<not> lengthq q - 1 <s 0" using l0 sl by (simp add: word_sless_alt)
  have d: "Dequeue q = Some ((data q ! nat (sint ?t), None), ?q')"
    using ne i by (auto simp: Dequeue_def Let_def split: if_splits)
  have "in_bounds ?q'"
    using b t l0 sl unfolding in_bounds_def word_sle_eq word_sless_alt by auto
  with d sl l0 show ?thesis by (auto simp: word_sle_eq)
qed

lemma Dequeue_in_bounds:
  assumes b: "in_bounds q"
  shows "\<exists>r q'. Dequeue q = Some (r, q') \<and> in_bounds q'"
proof (cases "lengthq q - 1 <s 0")
  case True
  with b show ?thesis by (simp add: Dequeue_def)
next
  case False
  let ?t = "if tail q + 1 = capacity q then 0 else tail q + 1"
  let ?q' = "q\<lparr>lengthq := lengthq q - 1, tail := ?t\<rparr>"
  from b have c: "1 \<le> sint (capacity q)" "- 1 \<le> sint (tail q)" "sint (tail q) < sint (capacity q)"
    by (simp_all add: in_bounds_def word_sle_eq word_sless_alt)
  note t = advance_in_range[OF c]
  from b have "nat (sint (capacity q)) \<le> length (data q)" by (simp add: in_bounds_def)
  with t have i: "index (data q) ?t = Some (data q ! nat (sint ?t))"
    unfolding index_def word_sle_eq by auto
  have d: "Dequeue q = Some ((data q ! nat (sint ?t), None), ?q')"
    using False i by (auto simp: Dequeue_def Let_def split: if_splits)
  have "in_bounds ?q'"
  proof (cases "sint (capacity q) = 2 ^ 63 - 1")
    case True
    with b t show ?thesis unfolding in_bounds_def word_sle_eq word_sless_alt by auto
  next
    case nm: False
    with b have l: "0 \<le> sint (lengthq q)" "sint (lengthq q) \<le> sint (capacity q)"
      by (auto simp: in_bounds_def word_sle_eq)
    then have sl: "sint (lengthq q - 1) = sint (lengthq q) - 1"
      by (intro sint_minus1) simp
    with False l b t show ?thesis
      unfolding in_bounds_def word_sle_eq word_sless_alt by auto
  qed
  with d show ?thesis by blast
qed

lemma resize_loop_drains:
  "in_bounds q \<Longrightarrow> 0 \<le>s lengthq q \<Longrightarrow> nat (sint (lengthq q)) = n \<Longrightarrow>
   \<exists>q'. resize_loop q i nd = Some (q', nd @ i # live q) \<and> lengthq q' = 0"
proof (induction n arbitrary: q i nd)
  case 0
  then have z: "lengthq q = 0" by (simp add: word_sle_eq sint_eq_iff)
  show ?case
    by (subst resize_loop.simps) (simp add: Dequeue_empty[OF z] live_def z)
next
  case (Suc n)
  then have "0 <s lengthq q" by (simp add: word_sless_alt)
  from Dequeue_nonempty[OF Suc.prems(1) this]
  obtain s q' where d: "Dequeue q = Some ((s, None), q')" and b: "in_bounds q'"
    and l: "0 \<le>s lengthq q'" "sint (lengthq q') = sint (lengthq q) - 1"
    and r: "capacity q' = capacity q" "data q' = data q"
      "tail q' = (if tail q + 1 = capacity q then 0 else tail q + 1)"
    by blast
  have s: "s = data q ! nat (sint (tail q'))"
    using d by (auto simp: Dequeue_def Let_def r split: if_splits option.splits simp: index_def)
  from l Suc.prems have n: "nat (sint (lengthq q')) = n" by simp
  from Suc.IH[OF b l(1) n, of s "nd @ [i]"]
  obtain q'' where q'': "resize_loop q' s ((nd @ [i])) = Some (q'', (nd @ [i]) @ s # live q')"
    "lengthq q'' = 0" by blast
  have "live q = s # live q'"
    using Suc.prems(3) n s r by (simp add: live_def Let_def)
  with q'' d show ?case
    by (subst resize_loop.simps) simp
qed

lemma length_slots [simp]: "length (slots d c t n) = n"
  by (induction n arbitrary: t) (simp_all add: Let_def)

lemma length_live: "length (live q) = nat (sint (lengthq q))"
  by (simp add: live_def)

lemma resize_full:
  assumes b: "in_bounds q" and l: "0 \<le>s lengthq q" and n: "0 \<le>s n"
  shows "resize n q = Some \<lparr>data = replicate (nat (sint n)) [] @ [] # live q,
           head = - 1, tail = 0, capacity = n, lengthq = 0\<rparr>"
proof -
  from n have m: "make_slice n = Some (replicate (nat (sint n)) [])"
    by (simp add: make_slice_def word_sle_eq word_sless_alt)
  from resize_loop_drains[OF b l refl, of "[]" "replicate (nat (sint n)) []"]
  obtain q' where q': "resize_loop q [] (replicate (nat (sint n)) []) =
      Some (q', replicate (nat (sint n)) [] @ [] # live q)" "lengthq q' = 0"
    by blast
  then show ?thesis by (simp add: resize_def m)
qed

lemma full_not_max:
  assumes "capacity q <s lengthq q + 1"
  shows "sint (capacity q) \<noteq> 2 ^ 63 - 1"
  using assms sint_lt[of "lengthq q + 1"] by (auto simp: word_sless_alt)

lemma Enqueue_store_in_bounds:
  assumes b: "in_bounds q" and nf: "\<not> capacity q <s lengthq q + 1"
  shows "\<exists>q'. Enqueue_store v q = Some (None, q') \<and> in_bounds q'"
proof -
  let ?h = "if head q + 1 = capacity q then 0 else head q + 1"
  let ?q' = "q\<lparr>lengthq := lengthq q + 1, head := ?h, data := (data q)[nat (sint ?h) := v]\<rparr>"
  from b have c: "1 \<le> sint (capacity q)" "- 1 \<le> sint (head q)" "sint (head q) < sint (capacity q)"
    by (simp_all add: in_bounds_def word_sle_eq word_sless_alt)
  note h = advance_in_range[OF c]
  from b have "nat (sint (capacity q)) \<le> length (data q)" by (simp add: in_bounds_def)
  with h have i: "store (data q) ?h v = Some ((data q)[nat (sint ?h) := v])"
    unfolding store_def word_sle_eq by auto
  have d: "Enqueue_store v q = Some (None, ?q')"
    using i by (auto simp: Enqueue_store_def Let_def split: if_splits)
  have "in_bounds ?q'"
  proof (cases "sint (capacity q) = 2 ^ 63 - 1")
    case True
    with b h show ?thesis unfolding in_bounds_def word_sle_eq word_sless_alt by auto
  next
    case nm: False
    with b have l: "0 \<le> sint (lengthq q)" "sint (lengthq q) \<le> sint (capacity q)"
      by (auto simp: in_bounds_def word_sle_eq)
    have "sint (capacity q) < 2 ^ 63" using sint_lt[of "capacity q"] by simp
    with nm l have sl: "sint (lengthq q + 1) = sint (lengthq q) + 1"
      by (intro sint_plus1) simp
    with nf l b h show ?thesis
      unfolding in_bounds_def word_sle_eq word_sless_alt by auto
  qed
  with d show ?thesis by blast
qed

lemma Enqueue_grow:
  assumes b: "in_bounds q" and f: "capacity q <s lengthq q + 1"
    and n: "\<not> capacity q * 2 <s 0"
  shows "Enqueue v q = Some (None,
           \<lparr>data = (replicate (nat (sint (capacity q * 2))) [] @ [] # live q)[0 := v],
            head = 0, tail = 0, capacity = capacity q * 2, lengthq = 1\<rparr>)"
proof -
  from b full_not_max[OF f] have l: "0 \<le>s lengthq q" by (auto simp: in_bounds_def)
  from n have n': "0 \<le>s capacity q * 2" by (simp add: word_sle_eq word_sless_alt)
  from b have c: "0 \<le> sint (capacity q)" "1 \<le> sint (capacity q)"
    by (simp_all add: in_bounds_def word_sle_eq)
  with n have "sint (capacity q * 2) = 2 * sint (capacity q)"
    by (simp add: double_neg_iff sint_double)
  with c have ne: "capacity q * 2 \<noteq> 0" by (auto simp: sint_eq_iff)
  show ?thesis
    using f n ne by (simp add: Enqueue_def Let_def resize_full[OF b l n']
        Enqueue_store_def store_def)
qed

lemma Enqueue_in_bounds:
  assumes b: "in_bounds q"
  shows "\<exists>r q'. Enqueue v q = Some (r, q') \<and> in_bounds q'"
proof (cases "capacity q <s lengthq q + 1")
  case False
  with Enqueue_store_in_bounds[OF b False, of v] show ?thesis
    by (auto simp: Enqueue_def)
next
  case f: True
  show ?thesis
  proof (cases "capacity q * 2 <s 0")
    case True
    with f b show ?thesis by (simp add: Enqueue_def)
  next
    case False
    from b have c: "0 \<le> sint (capacity q)" "1 \<le> sint (capacity q)"
      by (simp_all add: in_bounds_def word_sle_eq)
    with False have s: "sint (capacity q * 2) = 2 * sint (capacity q)"
      by (simp add: double_neg_iff sint_double)
    have "in_bounds \<lparr>data = (replicate (nat (sint (capacity q * 2))) [] @ [] # live q)[0 := v],
            head = 0, tail = 0, capacity = capacity q * 2, lengthq = 1\<rparr>"
      using c s by (simp add: in_bounds_def word_sle_eq word_sless_alt)
    with Enqueue_grow[OF b f False, of v] show ?thesis by simp
  qed
qed

lemma NewWithCapacity_in_bounds:
  assumes "1 \<le>s c"
  shows "\<exists>q. NewWithCapacity c = Some q \<and> in_bounds q"
  using assms
  by (simp add: NewWithCapacity_def make_slice_def in_bounds_def word_sle_eq word_sless_alt)

lemma calls_in_bounds:
  "in_bounds q \<Longrightarrow> \<exists>rs q'. calls cs q = Some (rs, q') \<and> in_bounds q'"
proof (induction cs arbitrary: q)
  case Nil
  then show ?case by simp
next
  case (Cons c cs)
  show ?case
  proof (cases c)
    case (Enq v)
    from Enqueue_in_bounds[OF Cons.prems, of v] obtain r q1
      where "Enqueue v q = Some (r, q1)" "in_bounds q1" by blast
    with Cons.IH[of q1] Enq show ?thesis by auto
  next
    case Deq
    from Dequeue_in_bounds[OF Cons.prems] obtain r q1
      where "Dequeue q = Some (r, q1)" "in_bounds q1" by blast
    with Cons.IH[of q1] Deq show ?thesis by (cases r) auto
  qed
qed

lemma NewWithCapacity_0:
  "NewWithCapacity 0 = Some \<lparr>data = [], head = - 1, tail = - 1, capacity = 0, lengthq = 0\<rparr>"
  by (simp add: NewWithCapacity_def make_slice_def word_sless_alt)

lemma zero_capacity_panics:
  "calls [Enq ''a'', Deq] \<lparr>data = [], head = - 1, tail = - 1, capacity = 0, lengthq = 0\<rparr> = None"
  by code_simp

lemma Enqueue_store_no_error:
  "Enqueue_store v q = Some (r, q') \<Longrightarrow> r = None \<and> capacity q' = capacity q"
  by (auto simp: Enqueue_store_def Let_def split: option.splits if_splits)

lemma resize_capacity:
  "resize n q = Some q' \<Longrightarrow> capacity q' = n"
  by (auto simp: resize_def split: option.splits)

lemma Dequeue_error:
  "Dequeue q = Some ((s, Some e), q') \<longleftrightarrow>
     lengthq q - 1 <s 0 \<and> s = [] \<and> e = QueueEmpty \<and> q' = q"
  by (auto simp: Dequeue_def Let_def split: option.splits)

lemma nonneg_minus1_neg:
  "0 \<le>s (l::go_int) \<Longrightarrow> l - 1 <s 0 \<longleftrightarrow> l = 0"
proof -
  assume "0 \<le>s l"
  then have l: "0 \<le> sint l" by (simp add: word_sle_eq)
  then have "sint (l - 1) = sint l - 1" by (intro sint_minus1) simp
  with l show ?thesis by (auto simp: word_sless_alt sint_eq_iff)
qed

lemma Dequeue_value:
  "Dequeue q = Some ((s, None), q') \<Longrightarrow>
     lengthq q' = lengthq q - 1 \<and> \<not> lengthq q - 1 <s 0 \<and> s = data q ! nat (sint (tail q'))"
  by (auto simp: Dequeue_def Let_def index_def split: if_splits option.splits)

lemma Dequeue_nonempty_eq:
  assumes b: "in_bounds q" and l: "0 \<le>s lengthq q" and n: "lengthq q \<noteq> 0"
  defines "t \<equiv> (if tail q + 1 = capacity q then 0 else tail q + 1)"
  shows "Dequeue q = Some ((data q ! nat (sint t), None), q\<lparr>lengthq := lengthq q - 1, tail := t\<rparr>)"
    and "0 \<le>s t" and "t <s capacity q" and "nat (sint t) < length (data q)"
    and "sint (lengthq q - 1) = sint (lengthq q) - 1"
proof -
  from l n have p: "0 <s lengthq q" by (auto simp: word_sle_eq word_sless_alt sint_eq_iff)
  from Dequeue_nonempty[OF b p]
  obtain s q' where d: "Dequeue q = Some ((s, None), q')"
    and f: "lengthq q' = lengthq q - 1" "capacity q' = capacity q" "data q' = data q"
      "head q' = head q" "tail q' = t"
    and sl: "sint (lengthq q') = sint (lengthq q) - 1"
    unfolding t_def by blast
  from f have q': "q' = q\<lparr>lengthq := lengthq q - 1, tail := t\<rparr>" by simp
  from Dequeue_value[OF d] f have s: "s = data q ! nat (sint t)" by simp
  from d q' s
  show "Dequeue q = Some ((data q ! nat (sint t), None), q\<lparr>lengthq := lengthq q - 1, tail := t\<rparr>)"
    by simp
  from sl f show "sint (lengthq q - 1) = sint (lengthq q) - 1" by simp
  from b have c: "1 \<le> sint (capacity q)" "- 1 \<le> sint (tail q)" "sint (tail q) < sint (capacity q)"
    and dl: "nat (sint (capacity q)) \<le> length (data q)"
    by (simp_all add: in_bounds_def word_sle_eq word_sless_alt)
  from advance_in_range[OF c] have r: "0 \<le> sint t" "sint t < sint (capacity q)"
    unfolding t_def by simp_all
  then show "0 \<le>s t" "t <s capacity q" by (simp_all add: word_sle_eq word_sless_alt)
  from r dl show "nat (sint t) < length (data q)" by simp
qed

subsection \<open>Below its capacity the queue is first-in first-out\<close>

text \<open>
  As long as no call resizes, the representation invariant \<open>rep_inv\<close> is kept: an
  \<open>Enqueue\<close> on a queue that is not full adds the value at the end of the live
  elements, and a \<open>Dequeue\<close> removes and returns the first of them. The index reached
  after \<open>n\<close> steps from \<open>t\<close> is \<open>(t + n) mod c\<close>, so fewer than \<open>c\<close> steps never
  reach the same slot twice.
\<close>

lemma sint_next:
  fixes t c :: go_int
  assumes "1 \<le> sint c" "- 1 \<le> sint t" "sint t < sint c"
  shows "sint (if t + 1 = c then 0 else t + 1) = (sint t + 1) mod sint c"
proof -
  have "sint c < 2 ^ 63" using sint_lt[of c] by simp
  with assms have s: "sint (t + 1) = sint t + 1" by (intro sint_plus1) simp
  show ?thesis
  proof (cases "t + 1 = c")
    case True
    with s show ?thesis by simp
  next
    case False
    with s have "sint t + 1 \<noteq> sint c" by (simp add: sint_eq_iff)
    with assms s False show ?thesis by simp
  qed
qed

lemma walk_Suc_right:
  "walk c t (Suc n) = (let h = walk c t n in if h + 1 = c then 0 else h + 1)"
  by (induction n arbitrary: t) (simp_all add: Let_def)

lemma sint_walk:
  fixes t c :: go_int
  assumes "1 \<le> sint c" "- 1 \<le> sint t" "sint t < sint c"
  shows "sint (walk c t (Suc n)) = (sint t + 1 + int n) mod sint c"
proof (induction n)
  case 0
  from sint_next[OF assms] show ?case by simp
next
  case (Suc n)
  let ?h = "walk c t (Suc n)"
  from Suc assms(1) have h: "- 1 \<le> sint ?h" "sint ?h < sint c"
    by (simp_all add: pos_mod_bound order_trans[OF _ pos_mod_sign])
  have "walk c t (Suc (Suc n)) = (if ?h + 1 = c then 0 else ?h + 1)"
    by (subst walk_Suc_right) (simp add: Let_def)
  then have "sint (walk c t (Suc (Suc n))) = (sint ?h + 1) mod sint c"
    using sint_next[OF assms(1) h] by simp
  also have "\<dots> = ((sint t + 1 + int n) mod sint c + 1) mod sint c"
    by (simp only: Suc)
  also have "\<dots> = (sint t + 1 + int n + 1) mod sint c"
    by (rule mod_add_left_eq)
  also have "\<dots> = (sint t + 1 + int (Suc n)) mod sint c"
    by (simp add: algebra_simps)
  finally show ?case .
qed

lemma slots_snoc:
  "slots d c t (Suc n) = slots d c t n @ [d ! nat (sint (walk c t (Suc n)))]"
  by (induction n arbitrary: t) (simp_all add: Let_def)

lemma slots_map:
  "slots d c t n = map (\<lambda>k. d ! nat (sint (walk c t (Suc k)))) [0..<n]"
  by (induction n) (simp_all add: slots_snoc del: slots.simps(2) walk.simps)

lemma walk_distinct:
  fixes t c :: go_int
  assumes b: "1 \<le> sint c" "- 1 \<le> sint t" "sint t < sint c"
    and k: "k < n" and n: "int n < sint c"
  shows "sint (walk c t (Suc k)) \<noteq> sint (walk c t (Suc n))"
proof
  assume "sint (walk c t (Suc k)) = sint (walk c t (Suc n))"
  then have "(sint t + 1 + int n) mod sint c = (sint t + 1 + int k) mod sint c"
    by (simp only: sint_walk[OF b])
  then have "sint c dvd (sint t + 1 + int n) - (sint t + 1 + int k)"
    by (simp add: mod_eq_dvd_iff)
  then have "sint c dvd int n - int k" by simp
  moreover from k n have "0 < int n - int k" "int n - int k < sint c" by simp_all
  ultimately show False using zdvd_not_zless by blast
qed

lemma slots_update:
  fixes t c :: go_int
  assumes b: "1 \<le> sint c" "- 1 \<le> sint t" "sint t < sint c"
    and n: "int n < sint c"
  shows "slots (d[nat (sint (walk c t (Suc n))) := v]) c t n = slots d c t n"
proof -
  have "0 \<le> sint (walk c t (Suc k))" for k
    using b(1) by (simp only: sint_walk[OF b]) simp
  then have "nat (sint (walk c t (Suc n))) \<noteq> nat (sint (walk c t (Suc k)))" if "k < n" for k
    using walk_distinct[OF b that n] by (simp add: nat_eq_iff)
  then show ?thesis by (simp add: slots_map del: walk.simps)
qed

lemma Enqueue_store_fields:
  "Enqueue_store v q = Some (r, q') \<Longrightarrow>
     q' = q\<lparr>lengthq := lengthq q + 1,
            head := (if head q + 1 = capacity q then 0 else head q + 1),
            data := (data q)[nat (sint (if head q + 1 = capacity q then 0 else head q + 1)) := v]\<rparr>"
  by (auto simp: Enqueue_store_def store_def Let_def split: if_splits)

lemma Enqueue_within:
  assumes b: "in_bounds q" and r: "rep_inv q xs" and n: "int (length xs) < sint (capacity q)"
  shows "\<exists>q'. Enqueue v q = Some (None, q') \<and> in_bounds q' \<and> rep_inv q' (xs @ [v]) \<and>
           capacity q' = capacity q"
proof -
  let ?n = "length xs"
  let ?c = "capacity q"
  define h where "h = (if head q + 1 = ?c then 0 else head q + 1)"
  from r have l: "sint (lengthq q) = int ?n" and w: "walk ?c (tail q) ?n = head q"
    by (simp_all add: rep_inv_def)
  from r l have lv: "slots (data q) ?c (tail q) ?n = xs"
    by (simp add: rep_inv_def live_def)
  have "sint ?c < 2 ^ 63" using sint_lt[of ?c] by simp
  with l n have sl: "sint (lengthq q + 1) = int ?n + 1" by (simp add: sint_plus1)
  with n have nf: "\<not> ?c <s lengthq q + 1" by (simp add: word_sless_alt)
  from Enqueue_store_in_bounds[OF b nf, of v]
  obtain q' where e: "Enqueue_store v q = Some (None, q')" and b': "in_bounds q'" by blast
  from Enqueue_store_fields[OF e]
  have f: "q' = q\<lparr>lengthq := lengthq q + 1, head := h, data := (data q)[nat (sint h) := v]\<rparr>"
    unfolding h_def .
  from b have c: "1 \<le> sint ?c" "- 1 \<le> sint (tail q)" "sint (tail q) < sint ?c"
    and hb: "- 1 \<le> sint (head q)" "sint (head q) < sint ?c"
    and d: "nat (sint ?c) \<le> length (data q)"
    by (simp_all add: in_bounds_def word_sle_eq word_sless_alt)
  have hw: "walk ?c (tail q) (Suc ?n) = h"
    by (subst walk_Suc_right) (simp add: w Let_def h_def)
  from advance_in_range[OF c(1) hb] d have i: "nat (sint h) < length (data q)"
    unfolding h_def by auto
  have 1: "slots (data q') ?c (tail q) ?n = xs"
    using slots_update[OF c n, of "data q" v] lv unfolding hw by (simp add: f)
  have 2: "data q' ! nat (sint h) = v"
    using i by (simp add: f)
  have "slots (data q') ?c (tail q) (Suc ?n) = xs @ [v]"
    unfolding slots_snoc hw 1 2 ..
  moreover have "nat (sint (lengthq q + 1)) = Suc ?n" using sl by simp
  ultimately have lv': "live q' = xs @ [v]"
    by (simp add: live_def f del: slots.simps)
  have "walk ?c (tail q) (length (xs @ [v])) = h" using hw by simp
  then have "rep_inv q' (xs @ [v])"
    unfolding rep_inv_def using lv' sl n
    by (simp add: f word_sle_eq del: walk.simps)
  with e b' nf f show ?thesis by (simp add: Enqueue_def)
qed

lemma Dequeue_within:
  assumes b: "in_bounds q" and r: "rep_inv q (x # xs)"
  shows "\<exists>q'. Dequeue q = Some ((x, None), q') \<and> in_bounds q' \<and> rep_inv q' xs \<and>
           capacity q' = capacity q"
proof -
  let ?c = "capacity q"
  let ?t = "if tail q + 1 = ?c then 0 else tail q + 1"
  from r have l: "sint (lengthq q) = int (length xs) + 1"
    and w: "walk ?c (tail q) (Suc (length xs)) = head q"
    and lc: "sint (lengthq q) \<le> sint ?c"
    by (simp_all add: rep_inv_def word_sle_eq)
  from l have "nat (sint (lengthq q)) = Suc (length xs)" by simp
  with r have lv: "slots (data q) ?c (tail q) (Suc (length xs)) = x # xs"
    by (simp add: rep_inv_def live_def del: slots.simps)
  from l have p: "0 <s lengthq q" by (simp add: word_sless_alt)
  from Dequeue_nonempty[OF b p]
  obtain s q' where d: "Dequeue q = Some ((s, None), q')" and b': "in_bounds q'"
    and f: "sint (lengthq q') = sint (lengthq q) - 1" "capacity q' = ?c" "data q' = data q"
      "head q' = head q" "tail q' = ?t"
    by blast
  from Dequeue_value[OF d] f lv have s: "s = x" by (simp add: Let_def)
  from lv have "slots (data q) ?c ?t (length xs) = xs" by (simp add: Let_def)
  with f l have "live q' = xs" by (simp add: live_def)
  moreover from w have "walk ?c ?t (length xs) = head q" by simp
  ultimately have "rep_inv q' xs"
    unfolding rep_inv_def using f l lc by (simp add: word_sle_eq)
  with d b' s f show ?thesis by simp
qed

lemma calls_append:
  "calls (as @ bs) q =
     (case calls as q of
        None \<Rightarrow> None
      | Some (rs, q') \<Rightarrow>
          (case calls bs q' of None \<Rightarrow> None | Some (rs', q'') \<Rightarrow> Some (rs @ rs', q'')))"
proof (induction as arbitrary: q)
  case Nil
  show ?case by (simp split: option.splits)
next
  case (Cons a as)
  show ?case by (cases a) (simp_all add: Cons.IH split: option.splits prod.splits)
qed

lemma calls_enqueues:
  "in_bounds q \<Longrightarrow> rep_inv q xs \<Longrightarrow> int (length xs + length vs) \<le> sint (capacity q) \<Longrightarrow>
   \<exists>q'. calls (map Enq vs) q = Some (replicate (length vs) (Enqueued None), q') \<and>
        in_bounds q' \<and> rep_inv q' (xs @ vs)"
proof (induction vs arbitrary: q xs)
  case Nil
  then show ?case by simp
next
  case (Cons v vs)
  from Cons.prems(3) have "int (length xs) < sint (capacity q)" by simp
  from Enqueue_within[OF Cons.prems(1,2) this, of v]
  obtain q1 where e: "Enqueue v q = Some (None, q1)" and b: "in_bounds q1"
    and r: "rep_inv q1 (xs @ [v])" and c: "capacity q1 = capacity q" by blast
  from Cons.prems(3) c have "int (length (xs @ [v]) + length vs) \<le> sint (capacity q1)" by simp
  from Cons.IH[OF b r this] e show ?case by auto
qed

lemma calls_dequeues:
  "in_bounds q \<Longrightarrow> rep_inv q xs \<Longrightarrow>
   \<exists>q'. calls (replicate (length xs) Deq) q = Some (map (\<lambda>x. Dequeued x None) xs, q') \<and>
        in_bounds q' \<and> rep_inv q' []"
proof (induction xs arbitrary: q)
  case Nil
  then show ?case by simp
next
  case (Cons x xs)
  from Dequeue_within[OF Cons.prems]
  obtain q1 where d: "Dequeue q = Some ((x, None), q1)" and b: "in_bounds q1"
    and r: "rep_inv q1 xs" by blast
  from Cons.IH[OF b r] d show ?case by auto
qed

lemma NewWithCapacity_rep_inv:
  assumes "1 \<le>s c"
  shows "\<exists>q. NewWithCapacity c = Some q \<and> in_bounds q \<and> rep_inv q [] \<and> capacity q = c"
  using assms
  by (simp add: NewWithCapacity_def make_slice_def in_bounds_def rep_inv_def live_def
      word_sle_eq word_sless_alt)

lemma fifo_within_capacity:
  assumes c: "1 \<le>s c" and n: "int (length vs) \<le> sint c"
  shows "\<exists>q q'. NewWithCapacity c = Some q \<and>
           calls (map Enq vs @ replicate (length vs) Deq) q
             = Some (replicate (length vs) (Enqueued None) @ map (\<lambda>x. Dequeued x None) vs, q')"
proof -
  from NewWithCapacity_rep_inv[OF c] obtain q
    where q: "NewWithCapacity c = Some q" "in_bounds q" "rep_inv q []" "capacity q = c"
    by blast
  from n q(4) have "int (length ([]::string list) + length vs) \<le> sint (capacity q)" by simp
  from calls_enqueues[OF q(2,3) this] obtain q1
    where e: "calls (map Enq vs) q = Some (replicate (length vs) (Enqueued None), q1)"
      and b: "in_bounds q1" and r: "rep_inv q1 vs" by auto
  from calls_dequeues[OF b r] obtain q2
    where d: "calls (replicate (length vs) Deq) q1 = Some (map (\<lambda>x. Dequeued x None) vs, q2)"
    by blast
  from q(1) e d show ?thesis by (simp add: calls_append)
qed

subsection \<open>Errors of Enqueue and Dequeue\<close>

text \<open>
  Claim C6. \<open>Enqueue\<close> returns the error "Capacity exceeded" exactly when the queue is
  full, \<open>length + 1 > capacity\<close>, and twice the capacity is more than the largest
  \<open>int\<close>, \<open>2 ^ 63 - 1\<close>; \<open>Enqueue\<close> returns no other error, and a call that returns
  an error leaves every field of the queue as it was. The capacity is not negative
  (no queue can be constructed otherwise, \<open>make\<close> panics) and \<open>length + 1\<close> itself
  does not overflow.
\<close>

theorem Enqueue_capacity_exceeded:
  assumes c: "0 \<le>s capacity q" and l: "sint (lengthq q) < 2 ^ 63 - 1"
  shows "((\<exists>q'. Enqueue v q = Some (Some CapacityExceeded, q')) \<longleftrightarrow>
            sint (capacity q) < sint (lengthq q) + 1 \<and> 2 ^ 63 - 1 < 2 * sint (capacity q)) \<and>
         (\<forall>e q'. Enqueue v q = Some (Some e, q') \<longrightarrow> e = CapacityExceeded \<and> q' = q)"
proof -
  from c have c0: "0 \<le> sint (capacity q)" by (simp add: word_sle_eq)
  have f: "capacity q <s lengthq q + 1 \<longleftrightarrow> sint (capacity q) < sint (lengthq q) + 1"
    using l by (simp add: word_sless_alt sint_plus1)
  have o: "capacity q * 2 <s 0 \<longleftrightarrow> 2 ^ 63 - 1 < 2 * sint (capacity q)"
    using double_neg_iff[OF c0] by auto
  have e: "Enqueue v q = Some (Some e, q') \<longleftrightarrow>
      capacity q <s lengthq q + 1 \<and> capacity q * 2 <s 0 \<and> e = CapacityExceeded \<and> q' = q"
    for e q'
    by (auto simp: Enqueue_def Let_def split: option.splits dest: Enqueue_store_no_error)
  show ?thesis unfolding e f o by blast
qed

theorem Enqueue_capacity_exceeded_witness:
  "0 \<le>s capacity \<lparr>data = [], head = - 1, tail = - 1, capacity = 2 ^ 62, lengthq = 2 ^ 62\<rparr> \<and>
   sint (lengthq \<lparr>data = [], head = - 1, tail = - 1, capacity = 2 ^ 62 :: go_int,
           lengthq = 2 ^ 62\<rparr>) < 2 ^ 63 - 1 \<and>
   Enqueue ''a'' \<lparr>data = [], head = - 1, tail = - 1, capacity = 2 ^ 62, lengthq = 2 ^ 62\<rparr>
     = Some (Some CapacityExceeded,
         \<lparr>data = [], head = - 1, tail = - 1, capacity = 2 ^ 62, lengthq = 2 ^ 62\<rparr>)"
proof -
  let ?q = "\<lparr>data = [], head = - 1, tail = - 1, capacity = 2 ^ 62, lengthq = 2 ^ 62 :: go_int\<rparr>"
  have c: "0 \<le>s capacity ?q" by (simp add: word_sle_eq)
  have l: "sint (lengthq ?q) < 2 ^ 63 - 1" by simp
  have "sint (capacity ?q) < sint (lengthq ?q) + 1 \<and> 2 ^ 63 - 1 < 2 * sint (capacity ?q)"
    by simp
  with Enqueue_capacity_exceeded[OF c l, of "''a''"]
  obtain q' where q': "Enqueue ''a'' ?q = Some (Some CapacityExceeded, q')" by blast
  with Enqueue_capacity_exceeded[OF c l, of "''a''"] have "q' = ?q" by blast
  with q' c l show ?thesis by simp
qed

text \<open>
  Claim C7 as it is stated, evaluated. A queue constructed with capacity 0 holds one
  element after \<open>Enqueue "a"\<close>; its length is 1, not 0, and \<open>Dequeue\<close> neither returns
  an error nor succeeds: it panics, reading index 1 of a slice of length 1. And on
  the queue of capacity 1 after \<open>Enqueue "a"\<close> and \<open>Enqueue "b"\<close>, which has resized,
  \<open>Dequeue\<close> succeeds with the empty string, which is neither of the two elements.
\<close>

theorem Dequeue_not_always_an_element:
  "NewWithCapacity 0 = Some \<lparr>data = [], head = - 1, tail = - 1, capacity = 0, lengthq = 0\<rparr> \<and>
   Enqueue ''a'' \<lparr>data = [], head = - 1, tail = - 1, capacity = 0, lengthq = 0\<rparr>
     = Some (None, \<lparr>data = [''a''], head = 0, tail = 0, capacity = 0, lengthq = 1\<rparr>) \<and>
   lengthq \<lparr>data = [''a''], head = 0, tail = 0, capacity = 0, lengthq = 1 :: go_int\<rparr> \<noteq> 0 \<and>
   Dequeue \<lparr>data = [''a''], head = 0, tail = 0, capacity = 0, lengthq = 1\<rparr> = None \<and>
   Option.bind (NewWithCapacity 1) (calls [Enq ''a'', Enq ''b''])
     = Some ([Enqueued None, Enqueued None],
             \<lparr>data = [''b'', [], [], ''a''], head = 0, tail = 0, capacity = 2, lengthq = 1\<rparr>) \<and>
   Dequeue \<lparr>data = [''b'', [], [], ''a''], head = 0, tail = 0, capacity = 2, lengthq = 1\<rparr>
     = Some (([], None),
             \<lparr>data = [''b'', [], [], ''a''], head = 0, tail = 1, capacity = 2, lengthq = 0\<rparr>) \<and>
   [] \<notin> set [''a'', ''b'']"
  by code_simp

text \<open>
  Claim C7, amended: for a queue constructed with a capacity of at least 1, after
  any sequence of calls that leaves its length not negative. \<open>Dequeue\<close> returns an
  error exactly when the length is 0, and then it returns the empty string with
  "Queue empty" and the queue unchanged. When the length is not 0 it returns with no
  error: \<open>tail\<close> advances by one, to 0 at the capacity, the string returned is the
  one stored at that index, which lies inside the capacity and inside the slice,
  the length is one less and no other field changes. Whenever the queue
  represents the elements \<open>x # xs\<close> (\<open>rep_inv\<close>), the string returned is the oldest
  one, \<open>x\<close>, and the queue then represents \<open>xs\<close>.
\<close>

theorem Dequeue_of_constructed_queue:
  assumes c: "1 \<le>s c" and n: "NewWithCapacity c = Some q0"
    and r: "calls cs q0 = Some (rs, q)" and l: "0 \<le>s lengthq q"
  shows "((\<exists>s e q'. Dequeue q = Some ((s, Some e), q')) \<longleftrightarrow> lengthq q = 0) \<and>
         (lengthq q = 0 \<longrightarrow> Dequeue q = Some (([], Some QueueEmpty), q)) \<and>
         (lengthq q \<noteq> 0 \<longrightarrow>
            (let t = (if tail q + 1 = capacity q then 0 else tail q + 1)
             in Dequeue q = Some ((data q ! nat (sint t), None),
                                  q\<lparr>lengthq := lengthq q - 1, tail := t\<rparr>) \<and>
                0 \<le>s t \<and> t <s capacity q \<and> nat (sint t) < length (data q) \<and>
                sint (lengthq q - 1) = sint (lengthq q) - 1)) \<and>
         (\<forall>x xs. rep_inv q (x # xs) \<longrightarrow>
            (\<exists>q'. Dequeue q = Some ((x, None), q') \<and> rep_inv q' xs))"
proof -
  from NewWithCapacity_in_bounds[OF c] n have "in_bounds q0" by simp
  from calls_in_bounds[OF this, of cs] r have b: "in_bounds q" by simp
  have 1: "(\<exists>s e q'. Dequeue q = Some ((s, Some e), q')) \<longleftrightarrow> lengthq q = 0"
    unfolding Dequeue_error nonneg_minus1_neg[OF l] by blast
  have 2: "lengthq q = 0 \<longrightarrow> Dequeue q = Some (([], Some QueueEmpty), q)"
    by (simp add: Dequeue_empty)
  have 3: "lengthq q \<noteq> 0 \<longrightarrow>
            (let t = (if tail q + 1 = capacity q then 0 else tail q + 1)
             in Dequeue q = Some ((data q ! nat (sint t), None),
                                  q\<lparr>lengthq := lengthq q - 1, tail := t\<rparr>) \<and>
                0 \<le>s t \<and> t <s capacity q \<and> nat (sint t) < length (data q) \<and>
                sint (lengthq q - 1) = sint (lengthq q) - 1)"
    unfolding Let_def using Dequeue_nonempty_eq[OF b l] by blast
  have 4: "\<forall>x xs. rep_inv q (x # xs) \<longrightarrow>
            (\<exists>q'. Dequeue q = Some ((x, None), q') \<and> rep_inv q' xs)"
    using Dequeue_within[OF b] by blast
  from 1 2 3 4 show ?thesis by blast
qed

theorem Dequeue_of_constructed_queue_witness:
  "1 \<le>s (1::go_int) \<and>
   NewWithCapacity 1 = Some \<lparr>data = [[]], head = - 1, tail = - 1, capacity = 1, lengthq = 0\<rparr> \<and>
   calls [] \<lparr>data = [[]], head = - 1, tail = - 1, capacity = 1, lengthq = 0\<rparr>
     = Some ([], \<lparr>data = [[]], head = - 1, tail = - 1, capacity = 1, lengthq = 0\<rparr>) \<and>
   Dequeue \<lparr>data = [[]], head = - 1, tail = - 1, capacity = 1, lengthq = 0\<rparr>
     = Some (([], Some QueueEmpty),
             \<lparr>data = [[]], head = - 1, tail = - 1, capacity = 1, lengthq = 0\<rparr>) \<and>
   calls [Enq ''a''] \<lparr>data = [[]], head = - 1, tail = - 1, capacity = 1, lengthq = 0\<rparr>
     = Some ([Enqueued None],
             \<lparr>data = [''a''], head = 0, tail = - 1, capacity = 1, lengthq = 1\<rparr>) \<and>
   rep_inv \<lparr>data = [''a''], head = 0, tail = - 1, capacity = 1, lengthq = 1\<rparr> [''a''] \<and>
   Dequeue \<lparr>data = [''a''], head = 0, tail = - 1, capacity = 1, lengthq = 1\<rparr>
     = Some ((''a'', None), \<lparr>data = [''a''], head = 0, tail = 0, capacity = 1, lengthq = 0\<rparr>) \<and>
   rep_inv \<lparr>data = [''a''], head = 0, tail = 0, capacity = 1, lengthq = 0\<rparr> []"
proof -
  let ?q0 = "\<lparr>data = [[]], head = - 1, tail = - 1, capacity = 1, lengthq = 0 :: go_int\<rparr>"
  let ?q1 = "\<lparr>data = [''a''], head = 0, tail = - 1, capacity = 1, lengthq = 1 :: go_int\<rparr>"
  let ?q2 = "\<lparr>data = [''a''], head = 0, tail = 0, capacity = 1, lengthq = 0 :: go_int\<rparr>"
  have c: "1 \<le>s (1::go_int)" by (simp add: word_sle_eq)
  have n: "NewWithCapacity 1 = Some ?q0" by code_simp
  have r0: "calls [] ?q0 = Some ([], ?q0)" by simp
  have r1: "calls [Enq ''a''] ?q0 = Some ([Enqueued None], ?q1)" by code_simp
  have l0: "0 \<le>s lengthq ?q0" and l1: "0 \<le>s lengthq ?q1" by (simp_all add: word_sle_eq)
  have i1: "rep_inv ?q1 [''a'']" by code_simp
  from Dequeue_of_constructed_queue[OF c n r0 l0]
  have d0: "Dequeue ?q0 = Some (([], Some QueueEmpty), ?q0)" by simp
  from Dequeue_of_constructed_queue[OF c n r1 l1]
  have d1: "Dequeue ?q1 = Some ((''a'', None), ?q2)" by (simp add: Let_def)
  from Dequeue_of_constructed_queue[OF c n r1 l1] i1
  obtain q' where "Dequeue ?q1 = Some ((''a'', None), q')" "rep_inv q' []" by blast
  with d1 have i2: "rep_inv ?q2 []" by simp
  from c n r0 d0 r1 i1 d1 i2 show ?thesis by blast
qed

text \<open>
  Claim C8. When the queue is full (\<open>length + 1 > capacity\<close>) and twice the capacity
  still fits an \<open>int\<close>, a call of \<open>Enqueue\<close> that returns has returned no error and
  has left the capacity at exactly twice the capacity before; and when the fields
  are within their bounds, the call does return. As for C6, the capacity is not
  negative and \<open>length + 1\<close> itself does not overflow.
\<close>

theorem Enqueue_doubles:
  assumes c: "0 \<le>s capacity q" and l: "sint (lengthq q) < 2 ^ 63 - 1"
    and f: "sint (capacity q) < sint (lengthq q) + 1"
    and o: "2 * sint (capacity q) \<le> 2 ^ 63 - 1"
  shows "(\<forall>r q'. Enqueue v q = Some (r, q') \<longrightarrow>
            r = None \<and> sint (capacity q') = 2 * sint (capacity q)) \<and>
         (in_bounds q \<longrightarrow> (\<exists>q'. Enqueue v q = Some (None, q')))"
proof (intro conjI allI impI)
  from c have c0: "0 \<le> sint (capacity q)" by (simp add: word_sle_eq)
  from l f have f': "capacity q <s lengthq q + 1" by (simp add: word_sless_alt sint_plus1)
  from o have n: "\<not> capacity q * 2 <s 0" by (simp add: double_neg_iff[OF c0])
  from o c0 have d: "sint (capacity q * 2) = 2 * sint (capacity q)"
    by (intro sint_double) simp_all
  {
    fix r q' assume e: "Enqueue v q = Some (r, q')"
    with f' n obtain q1 where "resize (capacity q * 2) q = Some q1"
      "Enqueue_store v q1 = Some (r, q')"
      by (auto simp: Enqueue_def Let_def split: option.splits)
    with resize_capacity[of "capacity q * 2" q q1] Enqueue_store_no_error[of v q1 r q']
    have "r = None \<and> capacity q' = capacity q * 2" by simp
    with d show "r = None" "sint (capacity q') = 2 * sint (capacity q)" by simp_all
  }
  assume b: "in_bounds q"
  from Enqueue_grow[OF b f' n, of v] show "\<exists>q'. Enqueue v q = Some (None, q')" by blast
qed

theorem Enqueue_doubles_witness:
  "0 \<le>s capacity \<lparr>data = [''a''], head = 0, tail = - 1, capacity = 1, lengthq = 1\<rparr> \<and>
   in_bounds \<lparr>data = [''a''], head = 0, tail = - 1, capacity = 1, lengthq = 1\<rparr> \<and>
   (\<exists>q'. Enqueue ''b'' \<lparr>data = [''a''], head = 0, tail = - 1, capacity = 1, lengthq = 1\<rparr>
            = Some (None, q') \<and> sint (capacity q') = 2)"
proof -
  let ?q = "\<lparr>data = [''a''], head = 0, tail = - 1, capacity = 1, lengthq = 1 :: go_int\<rparr>"
  have c: "0 \<le>s capacity ?q" by (simp add: word_sle_eq)
  have b: "in_bounds ?q" by (simp add: in_bounds_def word_sle_eq word_sless_alt)
  have l: "sint (lengthq ?q) < 2 ^ 63 - 1" by simp
  have f: "sint (capacity ?q) < sint (lengthq ?q) + 1" by simp
  have o: "2 * sint (capacity ?q) \<le> 2 ^ 63 - 1" by simp
  from Enqueue_doubles[OF c l f o, of "''b''"] b
  obtain q' where q': "Enqueue ''b'' ?q = Some (None, q')" by blast
  with Enqueue_doubles[OF c l f o, of "''b''"]
  have "sint (capacity q') = 2 * sint (capacity ?q)" by blast
  with q' c b show ?thesis by simp
qed

subsection \<open>No index out of range\<close>

text \<open>
  Claim C10. For a queue constructed by \<open>NewWithCapacity c\<close>, no sequence of
  \<open>Enqueue\<close> and \<open>Dequeue\<close> calls panics (every index read or written, also by the
  calls of \<open>Dequeue\<close> inside \<open>resize\<close>, lies inside the backing slice) if and only if
  \<open>c\<close> is at least 1: a negative \<open>c\<close> panics in \<open>make\<close>, and with \<open>c = 0\<close> an
  \<open>Enqueue\<close> followed by a \<open>Dequeue\<close> reads index 1 of a slice of length 1.
\<close>

theorem no_out_of_range:
  "(\<exists>q. NewWithCapacity c = Some q \<and> (\<forall>cs. calls cs q \<noteq> None)) \<longleftrightarrow> 1 \<le>s c"
proof
  assume "1 \<le>s c"
  from NewWithCapacity_in_bounds[OF this] obtain q
    where q: "NewWithCapacity c = Some q" "in_bounds q" by blast
  have "calls cs q \<noteq> None" for cs using calls_in_bounds[OF q(2), of cs] by auto
  with q show "\<exists>q. NewWithCapacity c = Some q \<and> (\<forall>cs. calls cs q \<noteq> None)" by blast
next
  assume "\<exists>q. NewWithCapacity c = Some q \<and> (\<forall>cs. calls cs q \<noteq> None)"
  then obtain q where q: "NewWithCapacity c = Some q"
    and a: "calls [Enq ''a'', Deq] q \<noteq> None" by blast
  show "1 \<le>s c"
  proof (rule ccontr)
    assume n: "\<not> 1 \<le>s c"
    from q have "\<not> c <s 0" by (auto simp: NewWithCapacity_def make_slice_def split: if_splits)
    with n have "sint c = 0" by (simp add: word_sle_eq word_sless_alt)
    then have "c = 0" by (simp add: sint_eq_iff)
    with q have q0: "q = \<lparr>data = [], head = - 1, tail = - 1, capacity = 0, lengthq = 0\<rparr>"
      by (simp add: NewWithCapacity_0)
    from a zero_capacity_panics show False unfolding q0 by (rule notE)
  qed
qed

theorem no_out_of_range_witness:
  "1 \<le>s (1::go_int) \<and>
   (\<exists>q. NewWithCapacity 1 = Some q \<and> calls [Enq ''a'', Enq ''b'', Deq, Deq] q \<noteq> None) \<and>
   \<not> 1 \<le>s (0::go_int) \<and>
   \<not> (\<exists>q. NewWithCapacity 0 = Some q \<and> (\<forall>cs. calls cs q \<noteq> None))"
proof -
  have h: "1 \<le>s (1::go_int)" by (simp add: word_sle_eq)
  with no_out_of_range[of 1] obtain q
    where "NewWithCapacity 1 = Some q" "\<forall>cs. calls cs q \<noteq> None" by blast
  then have 1: "\<exists>q. NewWithCapacity 1 = Some q \<and> calls [Enq ''a'', Enq ''b'', Deq, Deq] q \<noteq> None"
    by blast
  have n: "\<not> 1 \<le>s (0::go_int)" by (simp add: word_sle_eq)
  with no_out_of_range[of 0]
  have 2: "\<not> (\<exists>q. NewWithCapacity 0 = Some q \<and> (\<forall>cs. calls cs q \<noteq> None))" by blast
  from h 1 n 2 show ?thesis by blast
qed

subsection \<open>What resize does to the elements\<close>

text \<open>
  \<open>resize\<close> allocates \<open>new_capacity\<close> empty strings and appends to them: first the
  initial value of \<open>i\<close>, then every string that \<open>Dequeue\<close> returned. The elements end
  up behind index \<open>new_capacity\<close>, and \<open>lengthq\<close>, which \<open>Dequeue\<close> has counted down to
  0, is what \<open>head\<close> is computed from. The lemmas \<open>resize_full\<close> and \<open>Enqueue_grow\<close>
  above state this for every queue; the theorems below evaluate it. Without a
  resize the queue is in order (\<open>fifo_within_capacity\<close>, \<open>Enqueue_within\<close>,
  \<open>Dequeue_within\<close>).
\<close>

text \<open>
  Claim C5, evaluated on a queue of capacity 1 that holds the one element \<open>"a"\<close>:
  after \<open>resize 2\<close> the capacity is 2, \<open>tail\<close> is 0 and the new slice is installed,
  but \<open>head\<close> is \<open>- 1\<close>, not the length before the drain loop minus 1 (that is 0),
  the length is 0, and \<open>"a"\<close> is at index 3, not at index 0.
\<close>

theorem resize_head_after_drain:
  "resize 2 \<lparr>data = [''a''], head = 0, tail = - 1, capacity = 1, lengthq = 1\<rparr>
     = Some \<lparr>data = [[], [], [], ''a''], head = - 1, tail = 0, capacity = 2, lengthq = 0\<rparr>"
  by code_simp

text \<open>
  Claim C1, evaluated on a queue of capacity 2 whose live elements \<open>"b"\<close>, \<open>"c"\<close>
  wrap around the end of the backing slice (\<open>"b"\<close> at index 1, \<open>"c"\<close> at index 0):
  the \<open>Enqueue\<close> of \<open>"d"\<close> resizes, after which the length is 1, not 3, the next
  \<open>Dequeue\<close> returns the empty string read at index 1, and every later \<open>Dequeue\<close>
  returns the error "Queue empty": \<open>"b"\<close>, \<open>"c"\<close> and \<open>"d"\<close> are never returned.
\<close>

theorem resize_loses_wrapped_elements:
  "Option.bind (NewWithCapacity 2) (calls [Enq ''a'', Enq ''b'', Deq, Enq ''c''])
     = Some ([Enqueued None, Enqueued None, Dequeued ''a'' None, Enqueued None],
             \<lparr>data = [''c'', ''b''], head = 0, tail = 0, capacity = 2, lengthq = 2\<rparr>) \<and>
   live \<lparr>data = [''c'', ''b''], head = 0, tail = 0, capacity = 2, lengthq = 2\<rparr> = [''b'', ''c''] \<and>
   Enqueue ''d'' \<lparr>data = [''c'', ''b''], head = 0, tail = 0, capacity = 2, lengthq = 2\<rparr>
     = Some (None, \<lparr>data = [''d'', [], [], [], [], ''b'', ''c''], head = 0, tail = 0,
                     capacity = 4, lengthq = 1\<rparr>) \<and>
   map_option fst (calls [Deq, Deq, Deq]
       \<lparr>data = [''d'', [], [], [], [], ''b'', ''c''], head = 0, tail = 0, capacity = 4, lengthq = 1\<rparr>)
     = Some [Dequeued [] None, Dequeued [] (Some QueueEmpty), Dequeued [] (Some QueueEmpty)]"
  by code_simp

text \<open>
  Claim C2, evaluated: the 33 values of \<open>TestFill\<close> are distinct, enqueueing them on
  \<open>New\<close> succeeds 33 times and leaves the capacity at 64; of the 34 calls of \<open>Dequeue\<close>
  that follow, the first returns the empty string with no error and all the others
  return the error "Queue empty".
\<close>

theorem fill_then_drain:
  "distinct fill_values \<and> length fill_values = 33 \<and>
   map_option (capacity \<circ> snd) (Option.bind New (calls (map Enq fill_values))) = Some 64 \<and>
   map_option fst (Option.bind New (calls (map Enq fill_values @ replicate 34 Deq)))
     = Some (replicate 33 (Enqueued None) @
             Dequeued [] None # replicate 33 (Dequeued [] (Some QueueEmpty)))"
  by code_simp

text \<open>
  Claim C3, evaluated with capacity 1 and the two values \<open>"a"\<close>, \<open>"b"\<close>: both calls of
  \<open>Enqueue\<close> succeed, the first \<open>Dequeue\<close> returns the empty string, and the second
  returns the error "Queue empty".
\<close>

theorem fifo_fails_beyond_capacity:
  "map_option fst (Option.bind (NewWithCapacity 1) (calls (map Enq [''a'', ''b''] @ replicate 2 Deq)))
     = Some [Enqueued None, Enqueued None, Dequeued [] None, Dequeued [] (Some QueueEmpty)]"
  by code_simp

text \<open>
  Claim C4, evaluated with capacity 1: the representation invariant holds after
  construction for no elements, and after \<open>Enqueue "a"\<close> for the element \<open>"a"\<close>; after
  \<open>Enqueue "b"\<close>, which resizes, it does not hold for the elements \<open>"a"\<close>, \<open>"b"\<close>:
  the length field is 1.
\<close>

theorem rep_inv_broken_by_resize:
  "NewWithCapacity 1 = Some \<lparr>data = [[]], head = - 1, tail = - 1, capacity = 1, lengthq = 0\<rparr> \<and>
   rep_inv \<lparr>data = [[]], head = - 1, tail = - 1, capacity = 1, lengthq = 0\<rparr> [] \<and>
   Enqueue ''a'' \<lparr>data = [[]], head = - 1, tail = - 1, capacity = 1, lengthq = 0\<rparr>
     = Some (None, \<lparr>data = [''a''], head = 0, tail = - 1, capacity = 1, lengthq = 1\<rparr>) \<and>
   rep_inv \<lparr>data = [''a''], head = 0, tail = - 1, capacity = 1, lengthq = 1\<rparr> [''a''] \<and>
   Enqueue ''b'' \<lparr>data = [''a''], head = 0, tail = - 1, capacity = 1, lengthq = 1\<rparr>
     = Some (None, \<lparr>data = [''b'', [], [], ''a''], head = 0, tail = 0, capacity = 2, lengthq = 1\<rparr>) \<and>
   \<not> rep_inv \<lparr>data = [''b'', [], [], ''a''], head = 0, tail = 0, capacity = 2, lengthq = 1\<rparr>
         [''a'', ''b'']"
  by code_simp

section \<open>Properties of the heap\<close>

text \<open>
  The backing slices that \<open>TestInsert\<close> and \<open>TestDelete\<close> expect after each call are
  those of the model.
\<close>

lemma heap_backing_slices:
  "map (\<lambda>n. heap_data (fold Insert (take n [5, 10, 20, 7]) MaxHeap_New)) [0, 1, 2, 3, 4]
     = [[0], [0, 5], [0, 10, 5], [0, 20, 5, 10], [0, 20, 7, 10, 5]]"
  "map (\<lambda>n. heap_data (snd (deletes n (fold Insert [5, 10, 20, 7] MaxHeap_New)))) [1, 2, 3, 4]
     = [[0, 10, 7, 5], [0, 7, 5], [0, 5], [0]]"
  by code_simp+

text \<open>
  Claim C9. On a fresh heap, after inserting 5, 10, 20 and 7 in this order \<open>Peek\<close>
  returns 20; five calls of \<open>Delete\<close> then return 20, 10, 7, 5 and the error
  \<open>HeapEmpty\<close>.
\<close>

theorem heap_scenario:
  "Peek (fold Insert [5, 10, 20, 7] MaxHeap_New) = Inr 20 \<and>
   fst (deletes 5 (fold Insert [5, 10, 20, 7] MaxHeap_New))
     = [Inr 20, Inr 10, Inr 7, Inr 5, Inl HeapEmpty]"
  by code_simp

end
